theory Spec2Isabelle
  imports Main "HOL-Library.DAList"
begin

section \<open>The in-memory rate limiter (rateLimiter.ts)\<close>

text \<open>
  The limiter is a class holding a JavaScript \<^verbatim>\<open>Map<string, RateLimitEntry>\<close> and two
  read-only numbers. A JavaScript Map is an association list with unique keys kept in
  insertion order: \<^verbatim>\<open>set\<close> replaces the value of a present key in place and appends an
  absent one, \<^verbatim>\<open>delete\<close> drops the key, \<^verbatim>\<open>entries()\<close> lists the pairs in order. That is
  the type \<^typ>\<open>('k, 'v) alist\<close> with \<^const>\<open>DAList.lookup\<close>, \<^const>\<open>DAList.update\<close>,
  \<^const>\<open>DAList.delete\<close> and \<^const>\<open>DAList.impl_of\<close>.

  Times are the integer milliseconds of \<^verbatim>\<open>Date.now()\<close>; counts and the configuration are
  integers too (the only instance built is \<^verbatim>\<open>new RateLimiter(20, 1)\<close>), so \<^typ>\<open>int\<close>
  stands for \<^verbatim>\<open>number\<close>. The clock is read once per call and is a parameter \<open>now\<close> of
  each operation.
\<close>

record RateLimitEntry =
  count :: int
  resetTime :: int

record RateLimiter =
  requests :: "(string, RateLimitEntry) alist"
  maxRequests :: int
  windowMs :: int

text \<open>
  The value \<^verbatim>\<open>{ allowed: boolean; resetTime?: number }\<close> returned by \<^verbatim>\<open>checkLimit\<close>. Its
  optional field is named \<open>resetTime_opt\<close> here, since \<open>resetTime\<close> is the field of the
  entry.
\<close>

record LimitResult =
  allowed :: bool
  resetTime_opt :: "int option"

text \<open>
  The constructor, with its defaults \<open>maxRequests = 20\<close> and \<open>windowMinutes = 1\<close> written
  out by the caller. It also schedules \<^verbatim>\<open>cleanup\<close> every 60000 ms; the timer is not
  part of the state, and \<open>cleanup\<close> below may be run at any time.
\<close>

definition RateLimiter_new :: "int \<Rightarrow> int \<Rightarrow> RateLimiter" where
  "RateLimiter_new maxReq windowMinutes =
     \<lparr>requests = DAList.empty, maxRequests = maxReq, windowMs = windowMinutes * 60 * 1000\<rparr>"

definition chatRateLimiter :: RateLimiter where
  "chatRateLimiter = RateLimiter_new 20 1"

text \<open>
  \<^verbatim>\<open>cleanup\<close>: the loop runs over a snapshot of the entries
  (\<^verbatim>\<open>Array.from(this.requests.entries())\<close>) and deletes from the live map the key of each
  pair whose \<open>resetTime\<close> is below \<open>now\<close>.
\<close>

definition cleanup_step :: "int \<Rightarrow> string \<times> RateLimitEntry \<Rightarrow>
    (string, RateLimitEntry) alist \<Rightarrow> (string, RateLimitEntry) alist" where
  "cleanup_step now = (\<lambda>(key, entry) m.
     if resetTime entry < now then DAList.delete key m else m)"

definition cleanup :: "int \<Rightarrow> RateLimiter \<Rightarrow> RateLimiter" where
  "cleanup now s =
     (let entries = DAList.impl_of (requests s)
      in s\<lparr>requests := fold (cleanup_step now) entries (requests s)\<rparr>)"

text \<open>
  \<^verbatim>\<open>checkLimit\<close>: returns the decision and the limiter after the call. The statement
  \<^verbatim>\<open>entry.count++\<close> changes the object stored under \<open>identifier\<close>, which no other key
  shares (each entry object is created by the \<^verbatim>\<open>set\<close> of its own key); in the model the
  changed entry is stored back under the same key, which keeps its place.
\<close>

definition checkLimit :: "int \<Rightarrow> string \<Rightarrow> RateLimiter \<Rightarrow> LimitResult \<times> RateLimiter" where
  "checkLimit now identifier s =
     (let fresh = (\<lparr>allowed = True, resetTime_opt = None\<rparr>,
                   s\<lparr>requests := DAList.update identifier
                        \<lparr>count = 1, resetTime = now + windowMs s\<rparr> (requests s)\<rparr>)
      in case DAList.lookup (requests s) identifier of
           None \<Rightarrow> fresh
         | Some entry \<Rightarrow>
             if resetTime entry < now then fresh
             else if count entry \<ge> maxRequests s then
               (\<lparr>allowed = False, resetTime_opt = Some (resetTime entry)\<rparr>, s)
             else
               (\<lparr>allowed = True, resetTime_opt = None\<rparr>,
                s\<lparr>requests := DAList.update identifier
                     (entry\<lparr>count := count entry + 1\<rparr>) (requests s)\<rparr>))"

text \<open>The two decisions a caller can see.\<close>

abbreviation Allowed :: LimitResult where
  "Allowed \<equiv> \<lparr>allowed = True, resetTime_opt = None\<rparr>"

abbreviation Denied :: "int \<Rightarrow> LimitResult" where
  "Denied t \<equiv> \<lparr>allowed = False, resetTime_opt = Some t\<rparr>"

text \<open>A run of calls for one client, at the given clock readings, with the decisions in order.\<close>

fun checkLimit_seq :: "string \<Rightarrow> int list \<Rightarrow> RateLimiter \<Rightarrow> LimitResult list \<times> RateLimiter" where
  "checkLimit_seq c [] s = ([], s)"
| "checkLimit_seq c (t # ts) s =
     (let (r, s') = checkLimit t c s;
          (rs, s'') = checkLimit_seq c ts s'
      in (r # rs, s''))"

text \<open>Any history of the limiter: calls of \<^verbatim>\<open>checkLimit\<close> and timer firings of \<^verbatim>\<open>cleanup\<close>.\<close>

datatype operation = CheckLimit int string | Cleanup int

fun apply_operation :: "operation \<Rightarrow> RateLimiter \<Rightarrow> RateLimiter" where
  "apply_operation (CheckLimit now identifier) s = snd (checkLimit now identifier s)"
| "apply_operation (Cleanup now) s = cleanup now s"

definition run :: "operation list \<Rightarrow> RateLimiter \<Rightarrow> RateLimiter" where
  "run ops s = fold apply_operation ops s"

section \<open>Basic facts\<close>

lemma checkLimit_config [simp]:
  "maxRequests (snd (checkLimit now c s)) = maxRequests s"
  "windowMs (snd (checkLimit now c s)) = windowMs s"
  by (simp_all add: checkLimit_def Let_def split: option.splits)

lemma cleanup_config [simp]:
  "maxRequests (cleanup now s) = maxRequests s"
  "windowMs (cleanup now s) = windowMs s"
  by (simp_all add: cleanup_def)

lemma mem_impl_of_iff: "(k, e) \<in> set (DAList.impl_of m) \<longleftrightarrow> DAList.lookup m k = Some e"
  by (simp add: DAList.lookup.rep_eq)

subsection \<open>The loop of \<open>cleanup\<close>\<close>

lemma lookup_cleanup_step:
  "DAList.lookup (cleanup_step now x m) k =
     (if fst x = k \<and> resetTime (snd x) < now then None else DAList.lookup m k)"
  by (cases x) (simp add: cleanup_step_def)

text \<open>After the loop has run over any list of pairs, a key is gone when the list held it
  with an expired entry, and is as before otherwise.\<close>

lemma lookup_fold_cleanup_step:
  "DAList.lookup (fold (cleanup_step now) xs m) k =
     (if \<exists>e. (k, e) \<in> set xs \<and> resetTime e < now then None else DAList.lookup m k)"
proof (induction xs arbitrary: m)
  case Nil
  show ?case by simp
next
  case (Cons x xs)
  obtain k' e' where x: "x = (k', e')" by (cases x)
  show ?case
    unfolding fold_simps Cons.IH lookup_cleanup_step x by auto
qed

lemma lookup_cleanup:
  "DAList.lookup (requests (cleanup now s)) k =
     (case DAList.lookup (requests s) k of
        None \<Rightarrow> None
      | Some e \<Rightarrow> if resetTime e < now then None else Some e)"
  by (simp add: cleanup_def lookup_fold_cleanup_step mem_impl_of_iff split: option.splits)

lemma impl_of_cleanup_step:
  "DAList.impl_of (cleanup_step now x m) =
     filter (\<lambda>p. \<not> (fst p = fst x \<and> resetTime (snd x) < now)) (DAList.impl_of m)"
  by (cases x)
    (auto simp add: cleanup_step_def DAList.delete.rep_eq AList.delete_eq case_prod_unfold
      intro: filter_cong)

lemma impl_of_fold_cleanup_step:
  "DAList.impl_of (fold (cleanup_step now) xs m) =
     filter (\<lambda>p. \<not> (\<exists>e. (fst p, e) \<in> set xs \<and> resetTime e < now)) (DAList.impl_of m)"
proof (induction xs arbitrary: m)
  case Nil
  show ?case by simp
next
  case (Cons x xs)
  obtain k' e' where x: "x = (k', e')" by (cases x)
  show ?case
    unfolding fold_simps Cons.IH impl_of_cleanup_step filter_filter x
    by (rule filter_cong) auto
qed

text \<open>On the map's own entries the loop is a filter: the pairs kept are the unexpired
  ones, unchanged and in their order.\<close>

lemma impl_of_cleanup:
  "DAList.impl_of (requests (cleanup now s)) =
     filter (\<lambda>p. \<not> resetTime (snd p) < now) (DAList.impl_of (requests s))"
proof -
  have "(\<exists>e. (fst p, e) \<in> set (DAList.impl_of (requests s)) \<and> resetTime e < now)
          = (resetTime (snd p) < now)"
    if "p \<in> set (DAList.impl_of (requests s))" for p
  proof -
    from that have "DAList.lookup (requests s) (fst p) = Some (snd p)"
      by (simp add: mem_impl_of_iff [symmetric])
    then show ?thesis
      by (simp add: mem_impl_of_iff)
  qed
  then show ?thesis
    by (simp add: cleanup_def impl_of_fold_cleanup_step cong: filter_cong)
qed

subsection \<open>The branches of \<open>checkLimit\<close>\<close>

lemma checkLimit_fresh:
  assumes "case DAList.lookup (requests s) c of None \<Rightarrow> True | Some e \<Rightarrow> resetTime e < now"
  shows "checkLimit now c s =
    (Allowed, s\<lparr>requests := DAList.update c \<lparr>count = 1, resetTime = now + windowMs s\<rparr> (requests s)\<rparr>)"
  using assms by (cases "DAList.lookup (requests s) c") (simp_all add: checkLimit_def Let_def)

lemma checkLimit_seq_Cons:
  "fst (checkLimit_seq c (t # ts) s) =
     fst (checkLimit t c s) # fst (checkLimit_seq c ts (snd (checkLimit t c s)))"
  "snd (checkLimit_seq c (t # ts) s) = snd (checkLimit_seq c ts (snd (checkLimit t c s)))"
  by (simp_all add: case_prod_unfold Let_def)

lemma checkLimit_denied:
  assumes "DAList.lookup (requests s) c = Some e" "now \<le> resetTime e" "maxRequests s \<le> count e"
  shows "checkLimit now c s = (Denied (resetTime e), s)"
  using assms by (simp add: checkLimit_def Let_def)

lemma checkLimit_increment:
  assumes "DAList.lookup (requests s) c = Some e" "now \<le> resetTime e" "count e < maxRequests s"
  shows "checkLimit now c s =
    (Allowed, s\<lparr>requests := DAList.update c (e\<lparr>count := count e + 1\<rparr>) (requests s)\<rparr>)"
  using assms by (simp add: checkLimit_def Let_def)

lemma lookup_checkLimit_other:
  "k \<noteq> c \<Longrightarrow> DAList.lookup (requests (snd (checkLimit now c s))) k = DAList.lookup (requests s) k"
  by (simp add: checkLimit_def Let_def split: option.splits)

text \<open>The decision and the caller's entry after the call depend on the limiter only
  through that entry and the configuration.\<close>

lemma checkLimit_local:
  assumes "DAList.lookup (requests s) c = DAList.lookup (requests s') c"
    and "maxRequests s = maxRequests s'" and "windowMs s = windowMs s'"
  shows "fst (checkLimit now c s) = fst (checkLimit now c s')"
    and "DAList.lookup (requests (snd (checkLimit now c s))) c
       = DAList.lookup (requests (snd (checkLimit now c s'))) c"
  using assms by (simp_all add: checkLimit_def Let_def split: option.splits)

subsection \<open>Runs of calls inside one window\<close>

text \<open>With an unexpired entry in place, the run admits what is left of the quota and
  denies the rest, whatever the order of the clock readings.\<close>

lemma checkLimit_seq_window:
  assumes "DAList.lookup (requests s) c = Some e" and "\<forall>t\<in>set ts. t \<le> resetTime e"
  shows "fst (checkLimit_seq c ts s) =
      replicate (min (length ts) (nat (maxRequests s - count e))) Allowed
      @ replicate (length ts - nat (maxRequests s - count e)) (Denied (resetTime e))"
  using assms
proof (induction ts arbitrary: s e)
  case Nil
  show ?case by simp
next
  case (Cons t ts)
  from Cons.prems have t: "t \<le> resetTime e" and ts: "\<forall>t\<in>set ts. t \<le> resetTime e" by simp_all
  show ?case
  proof (cases "count e < maxRequests s")
    case True
    let ?e = "e\<lparr>count := count e + 1\<rparr>"
    let ?s = "s\<lparr>requests := DAList.update c ?e (requests s)\<rparr>"
    have step: "checkLimit t c s = (Allowed, ?s)"
      using Cons.prems(1) t True by (rule checkLimit_increment)
    have "DAList.lookup (requests ?s) c = Some ?e" by simp
    moreover have "\<forall>t\<in>set ts. t \<le> resetTime ?e" using ts by simp
    ultimately have IH: "fst (checkLimit_seq c ts ?s) =
      replicate (min (length ts) (nat (maxRequests ?s - count ?e))) Allowed
      @ replicate (length ts - nat (maxRequests ?s - count ?e)) (Denied (resetTime ?e))"
      by (rule Cons.IH)
    from True have n: "nat (maxRequests s - count e) = Suc (nat (maxRequests s - (count e + 1)))"
      by simp
    show ?thesis
      by (simp only: checkLimit_seq_Cons step fst_conv snd_conv IH) (simp add: n)
  next
    case False
    then have step: "checkLimit t c s = (Denied (resetTime e), s)"
      using Cons.prems(1) t by (simp add: checkLimit_denied)
    from False have n: "nat (maxRequests s - count e) = 0" by simp
    have IH: "fst (checkLimit_seq c ts s) =
      replicate (min (length ts) (nat (maxRequests s - count e))) Allowed
      @ replicate (length ts - nat (maxRequests s - count e)) (Denied (resetTime e))"
      using Cons.prems(1) ts by (rule Cons.IH)
    show ?thesis
      by (simp only: checkLimit_seq_Cons step fst_conv snd_conv IH) (simp add: n)
  qed
qed

lemma checkLimit_seq_resetTime:
  assumes "DAList.lookup (requests s) c = Some e" and "\<forall>t\<in>set ts. t \<le> resetTime e"
  shows "map_option resetTime (DAList.lookup (requests (snd (checkLimit_seq c ts s))) c)
           = Some (resetTime e)"
  using assms
proof (induction ts arbitrary: s e)
  case Nil
  then show ?case by simp
next
  case (Cons t ts)
  from Cons.prems have t: "t \<le> resetTime e" and ts: "\<forall>t\<in>set ts. t \<le> resetTime e" by simp_all
  show ?case
  proof (cases "count e < maxRequests s")
    case True
    let ?e = "e\<lparr>count := count e + 1\<rparr>"
    let ?s = "s\<lparr>requests := DAList.update c ?e (requests s)\<rparr>"
    have step: "checkLimit t c s = (Allowed, ?s)"
      using Cons.prems(1) t True by (rule checkLimit_increment)
    have "DAList.lookup (requests ?s) c = Some ?e" by simp
    moreover have "\<forall>t\<in>set ts. t \<le> resetTime ?e" using ts by simp
    ultimately have "map_option resetTime (DAList.lookup (requests (snd (checkLimit_seq c ts ?s))) c)
           = Some (resetTime ?e)"
      by (rule Cons.IH)
    then show ?thesis
      by (simp only: checkLimit_seq_Cons step snd_conv) simp
  next
    case False
    then have step: "checkLimit t c s = (Denied (resetTime e), s)"
      using Cons.prems(1) t by (simp add: checkLimit_denied)
    have "map_option resetTime (DAList.lookup (requests (snd (checkLimit_seq c ts s))) c)
           = Some (resetTime e)"
      using Cons.prems(1) ts by (rule Cons.IH)
    then show ?thesis
      by (simp only: checkLimit_seq_Cons step snd_conv)
  qed
qed

subsection \<open>The count of every entry stays within the quota\<close>

lemma count_bounds_checkLimit:
  assumes "1 \<le> maxRequests s"
    and "\<forall>k e. DAList.lookup (requests s) k = Some e \<longrightarrow> 1 \<le> count e \<and> count e \<le> maxRequests s"
  shows "\<forall>k e. DAList.lookup (requests (snd (checkLimit now c s))) k = Some e
           \<longrightarrow> 1 \<le> count e \<and> count e \<le> maxRequests s"
proof (intro allI impI)
  fix k e
  assume l: "DAList.lookup (requests (snd (checkLimit now c s))) k = Some e"
  show "1 \<le> count e \<and> count e \<le> maxRequests s"
  proof (cases "k = c")
    case False
    with l have "DAList.lookup (requests s) k = Some e"
      by (simp add: lookup_checkLimit_other)
    with assms(2) show ?thesis by blast
  next
    case True
    show ?thesis
    proof (cases "DAList.lookup (requests s) c")
      case None
      with l True assms(1) show ?thesis
        by (auto simp add: checkLimit_def Let_def)
    next
      case (Some e0)
      with assms(2) have "1 \<le> count e0 \<and> count e0 \<le> maxRequests s" by blast
      with l True Some assms(1) show ?thesis
        by (auto simp add: checkLimit_def Let_def split: if_splits)
    qed
  qed
qed

lemma count_bounds_cleanup:
  assumes "\<forall>k e. DAList.lookup (requests s) k = Some e \<longrightarrow> 1 \<le> count e \<and> count e \<le> maxRequests s"
  shows "\<forall>k e. DAList.lookup (requests (cleanup now s)) k = Some e
           \<longrightarrow> 1 \<le> count e \<and> count e \<le> maxRequests s"
  using assms by (auto simp add: lookup_cleanup split: option.splits if_splits)

lemma apply_operation_config [simp]:
  "maxRequests (apply_operation x s) = maxRequests s"
  "windowMs (apply_operation x s) = windowMs s"
  by (cases x; simp)+

lemma count_bounds_run:
  assumes "1 \<le> maxRequests s"
    and "\<forall>k e. DAList.lookup (requests s) k = Some e \<longrightarrow> 1 \<le> count e \<and> count e \<le> maxRequests s"
  shows "maxRequests (run ops s) = maxRequests s
       \<and> (\<forall>k e. DAList.lookup (requests (run ops s)) k = Some e
             \<longrightarrow> 1 \<le> count e \<and> count e \<le> maxRequests s)"
  using assms
proof (induction ops arbitrary: s)
  case Nil
  then show ?case by (simp add: run_def)
next
  case (Cons x ops)
  have step: "\<forall>k e. DAList.lookup (requests (apply_operation x s)) k = Some e
           \<longrightarrow> 1 \<le> count e \<and> count e \<le> maxRequests (apply_operation x s)"
  proof (cases x)
    case (CheckLimit now c)
    then show ?thesis
      using count_bounds_checkLimit [OF Cons.prems] by simp
  next
    case (Cleanup now)
    then show ?thesis
      using count_bounds_cleanup [OF Cons.prems(2)] by simp
  qed
  have "1 \<le> maxRequests (apply_operation x s)" using Cons.prems(1) by simp
  from Cons.IH [OF this step] show ?case
    by (simp add: run_def)
qed

section \<open>The claims\<close>

text \<open>
  Claim C1. Let the limiter have \<open>maxRequests = N \<ge> 1\<close> and no live entry for the client
  (none at all, or one that the first call finds expired). Of \<open>N + 1\<close> calls for that
  client, the first at \<open>t1\<close> and the others before the window's end \<open>t1 + windowMs\<close>, the
  first \<open>N\<close> are Allowed and the last is Denied, carrying that window's end.
\<close>

theorem C1_quota_then_denied:
  assumes "1 \<le> maxRequests s"
    and "DAList.lookup (requests s) c = None
         \<or> (\<exists>e. DAList.lookup (requests s) c = Some e \<and> resetTime e < t1)"
    and "length ts = nat (maxRequests s)"
    and "\<forall>t\<in>set ts. t < t1 + windowMs s"
  shows "fst (checkLimit_seq c (t1 # ts) s) =
           replicate (nat (maxRequests s)) Allowed @ [Denied (t1 + windowMs s)]"
proof -
  let ?e = "\<lparr>count = 1, resetTime = t1 + windowMs s\<rparr>"
  let ?s = "s\<lparr>requests := DAList.update c ?e (requests s)\<rparr>"
  from assms(2) have "case DAList.lookup (requests s) c of None \<Rightarrow> True | Some e \<Rightarrow> resetTime e < t1"
    by auto
  then have step: "checkLimit t1 c s = (Allowed, ?s)"
    by (rule checkLimit_fresh)
  have "DAList.lookup (requests ?s) c = Some ?e" by simp
  moreover from assms(4) have "\<forall>t\<in>set ts. t \<le> resetTime ?e" by auto
  ultimately have rest: "fst (checkLimit_seq c ts ?s) =
      replicate (min (length ts) (nat (maxRequests ?s - count ?e))) Allowed
      @ replicate (length ts - nat (maxRequests ?s - count ?e)) (Denied (resetTime ?e))"
    by (rule checkLimit_seq_window)
  from assms(1) obtain n where n: "nat (maxRequests s) = Suc n" "nat (maxRequests s - 1) = n"
    by (cases "nat (maxRequests s)") auto
  have "fst (checkLimit_seq c ts ?s) = replicate n Allowed @ [Denied (t1 + windowMs s)]"
    unfolding rest using n assms(3) by simp
  then show ?thesis
    by (simp only: checkLimit_seq_Cons step fst_conv snd_conv n) simp
qed

text \<open>The limiter of the chat endpoint: twenty calls at time 0 are admitted and the
  twenty-first is denied until 60 s.\<close>

theorem C1_quota_then_denied_witness:
  "1 \<le> maxRequests chatRateLimiter
   \<and> DAList.lookup (requests chatRateLimiter) ''1.2.3.4'' = None
   \<and> length (replicate 20 (0::int)) = nat (maxRequests chatRateLimiter)
   \<and> list_all (\<lambda>t. t < 0 + windowMs chatRateLimiter) (replicate 20 0)
   \<and> fst (checkLimit_seq ''1.2.3.4'' (0 # replicate 20 0) chatRateLimiter)
       = replicate 20 Allowed @ [Denied 60000]"
  using C1_quota_then_denied [of chatRateLimiter "''1.2.3.4''" 0 "replicate 20 0"]
  by (simp add: chatRateLimiter_def RateLimiter_new_def list_all_iff)

text \<open>
  Claim C2, as amended. When \<open>checkLimit\<close> finds no entry for the client, or an entry whose
  \<open>resetTime\<close> is strictly before \<open>now\<close>, it answers Allowed and stores a fresh entry with
  \<open>count = 1\<close> and \<open>resetTime = now + windowMs\<close>. The test in the code is
  \<^verbatim>\<open>entry.resetTime < now\<close>: an entry whose \<open>resetTime\<close> equals \<open>now\<close> is still in
  its window.
\<close>

theorem C2_fresh_window:
  assumes "DAList.lookup (requests s) c = None
           \<or> (\<exists>e. DAList.lookup (requests s) c = Some e \<and> resetTime e < now)"
  shows "fst (checkLimit now c s) = Allowed
       \<and> DAList.lookup (requests (snd (checkLimit now c s))) c
           = Some \<lparr>count = 1, resetTime = now + windowMs s\<rparr>"
proof -
  from assms have "case DAList.lookup (requests s) c of None \<Rightarrow> True | Some e \<Rightarrow> resetTime e < now"
    by auto
  then show ?thesis
    by (simp add: checkLimit_fresh)
qed

text \<open>A first call at time 0 of a new limiter, and a call at 61 s after its window ended
  at 60 s.\<close>

theorem C2_fresh_window_witness:
  "DAList.lookup (requests (RateLimiter_new 20 1)) ''1.2.3.4'' = None
   \<and> fst (checkLimit 0 ''1.2.3.4'' (RateLimiter_new 20 1)) = Allowed
   \<and> DAList.lookup (requests (snd (checkLimit 0 ''1.2.3.4'' (RateLimiter_new 20 1)))) ''1.2.3.4''
       = Some \<lparr>count = 1, resetTime = 60000\<rparr>
   \<and> resetTime \<lparr>count = 1, resetTime = 60000\<rparr> < 61000
   \<and> fst (checkLimit 61000 ''1.2.3.4'' (snd (checkLimit 0 ''1.2.3.4'' (RateLimiter_new 20 1))))
       = Allowed
   \<and> DAList.lookup (requests (snd (checkLimit 61000 ''1.2.3.4''
          (snd (checkLimit 0 ''1.2.3.4'' (RateLimiter_new 20 1)))))) ''1.2.3.4''
       = Some \<lparr>count = 1, resetTime = 121000\<rparr>"
  using C2_fresh_window [of "RateLimiter_new 20 1" "''1.2.3.4''" 0]
    C2_fresh_window [of "snd (checkLimit 0 ''1.2.3.4'' (RateLimiter_new 20 1))" "''1.2.3.4''" 61000]
  by (simp add: RateLimiter_new_def)

text \<open>
  Claim C2 as written ("at or before now") fails at the boundary: with \<open>maxRequests = 2\<close>
  and two calls at time 0 the entry is \<open>count = 2, resetTime = 60000\<close>; a call at exactly
  60000 finds \<open>resetTime \<le> now\<close>, yet it is denied and the entry stays as it was.
\<close>

theorem C2_counterexample:
  "DAList.lookup (requests (snd (checkLimit_seq ''1.2.3.4'' [0, 0] (RateLimiter_new 2 1))))
       ''1.2.3.4'' = Some \<lparr>count = 2, resetTime = 60000\<rparr>
   \<and> resetTime \<lparr>count = 2, resetTime = 60000\<rparr> \<le> 60000
   \<and> fst (checkLimit 60000 ''1.2.3.4''
          (snd (checkLimit_seq ''1.2.3.4'' [0, 0] (RateLimiter_new 2 1)))) = Denied 60000
   \<and> DAList.lookup (requests (snd (checkLimit 60000 ''1.2.3.4''
          (snd (checkLimit_seq ''1.2.3.4'' [0, 0] (RateLimiter_new 2 1)))))) ''1.2.3.4''
       = Some \<lparr>count = 2, resetTime = 60000\<rparr>"
  by (simp add: checkLimit_def RateLimiter_new_def Let_def)

text \<open>
  Claim C3. When the client's entry exists, is not expired at \<open>now\<close> and has
  \<open>count \<ge> maxRequests\<close>, \<open>checkLimit\<close> returns the value Denied carrying the entry's
  \<open>resetTime\<close>, and the limiter is exactly as before.
\<close>

theorem C3_denied:
  assumes "DAList.lookup (requests s) c = Some e"
    and "\<not> resetTime e < now"
    and "maxRequests s \<le> count e"
  shows "checkLimit now c s = (Denied (resetTime e), s)"
  using assms by (simp add: checkLimit_denied)

text \<open>The third call of a client whose quota of two is used up.\<close>

theorem C3_denied_witness:
  "DAList.lookup (requests (snd (checkLimit_seq ''1.2.3.4'' [0, 0] (RateLimiter_new 2 1))))
       ''1.2.3.4'' = Some \<lparr>count = 2, resetTime = 60000\<rparr>
   \<and> \<not> resetTime \<lparr>count = 2, resetTime = 60000\<rparr> < 59999
   \<and> maxRequests (snd (checkLimit_seq ''1.2.3.4'' [0, 0] (RateLimiter_new 2 1)))
        \<le> count \<lparr>count = 2, resetTime = 60000\<rparr>
   \<and> checkLimit 59999 ''1.2.3.4'' (snd (checkLimit_seq ''1.2.3.4'' [0, 0] (RateLimiter_new 2 1)))
       = (Denied 60000, snd (checkLimit_seq ''1.2.3.4'' [0, 0] (RateLimiter_new 2 1)))"
  using C3_denied [of "snd (checkLimit_seq ''1.2.3.4'' [0, 0] (RateLimiter_new 2 1))"
      "''1.2.3.4''" "\<lparr>count = 2, resetTime = 60000\<rparr>" 59999]
  by (simp add: checkLimit_def RateLimiter_new_def Let_def)

text \<open>
  Claim C4. For a limiter constructed with \<open>maxRequests = N \<ge> 1\<close>, in every state reached
  by any sequence of \<open>checkLimit\<close> and \<open>cleanup\<close> operations at any clock readings, every
  stored entry has its \<open>count\<close> in \<open>[1, N]\<close>; and an entry with \<open>count = N\<close> makes
  \<open>checkLimit\<close> answer Denied for its identifier at every time up to its \<open>resetTime\<close>,
  without changing the state.
\<close>

theorem C4_count_in_range:
  assumes "1 \<le> N"
    and "DAList.lookup (requests (run ops (RateLimiter_new N w))) k = Some e"
  shows "1 \<le> count e \<and> count e \<le> N
       \<and> (count e = N \<longrightarrow>
            (\<forall>now. now \<le> resetTime e \<longrightarrow>
               checkLimit now k (run ops (RateLimiter_new N w))
                 = (Denied (resetTime e), run ops (RateLimiter_new N w))))"
proof -
  let ?s0 = "RateLimiter_new N w"
  have m0: "maxRequests ?s0 = N" by (simp add: RateLimiter_new_def)
  have "\<forall>k e. DAList.lookup (requests ?s0) k = Some e \<longrightarrow> 1 \<le> count e \<and> count e \<le> maxRequests ?s0"
    by (simp add: RateLimiter_new_def)
  with assms(1) m0 have inv: "maxRequests (run ops ?s0) = maxRequests ?s0
       \<and> (\<forall>k e. DAList.lookup (requests (run ops ?s0)) k = Some e
             \<longrightarrow> 1 \<le> count e \<and> count e \<le> maxRequests ?s0)"
    by (intro count_bounds_run) simp_all
  with assms(2) m0 have bounds: "1 \<le> count e \<and> count e \<le> N" by auto
  have "checkLimit now k (run ops ?s0) = (Denied (resetTime e), run ops ?s0)"
    if "count e = N" "now \<le> resetTime e" for now
    using assms(2) that inv m0 by (simp add: checkLimit_denied)
  with bounds show ?thesis by blast
qed

text \<open>A history with two clients, a scan and a denied call: client A ends with its quota
  of two used up.\<close>

theorem C4_count_in_range_witness:
  "(1::int) \<le> 2
   \<and> DAList.lookup (requests (run [CheckLimit 0 ''A'', CheckLimit 10 ''B'', CheckLimit 20 ''A'',
          Cleanup 60000, CheckLimit 60000 ''A''] (RateLimiter_new 2 1))) ''A''
       = Some \<lparr>count = 2, resetTime = 60000\<rparr>
   \<and> checkLimit 60000 ''A'' (run [CheckLimit 0 ''A'', CheckLimit 10 ''B'', CheckLimit 20 ''A'',
          Cleanup 60000, CheckLimit 60000 ''A''] (RateLimiter_new 2 1))
       = (Denied 60000, run [CheckLimit 0 ''A'', CheckLimit 10 ''B'', CheckLimit 20 ''A'',
          Cleanup 60000, CheckLimit 60000 ''A''] (RateLimiter_new 2 1))"
proof -
  let ?s = "run [CheckLimit 0 ''A'', CheckLimit 10 ''B'', CheckLimit 20 ''A'',
          Cleanup 60000, CheckLimit 60000 ''A''] (RateLimiter_new 2 1)"
  have l: "DAList.lookup (requests ?s) ''A'' = Some \<lparr>count = 2, resetTime = 60000\<rparr>"
    by (simp add: run_def checkLimit_def RateLimiter_new_def Let_def lookup_cleanup)
  from C4_count_in_range [of 2 "[CheckLimit 0 ''A'', CheckLimit 10 ''B'', CheckLimit 20 ''A'',
          Cleanup 60000, CheckLimit 60000 ''A'']" 1 "''A''", OF _ l]
  show ?thesis using l by simp
qed

text \<open>
  Claim C5. A call \<open>checkLimit(c)\<close> leaves the entry of every other identifier \<open>k\<close> as it
  was (present or absent, same count, same resetTime), and a later call for \<open>k\<close> at any
  time \<open>t\<close> gets the same decision and leaves the same entry for \<open>k\<close> as if the call for
  \<open>c\<close> had never been made.
\<close>

theorem C5_other_clients_untouched:
  assumes "k \<noteq> c"
  shows "DAList.lookup (requests (snd (checkLimit now c s))) k = DAList.lookup (requests s) k
       \<and> fst (checkLimit t k (snd (checkLimit now c s))) = fst (checkLimit t k s)
       \<and> DAList.lookup (requests (snd (checkLimit t k (snd (checkLimit now c s))))) k
           = DAList.lookup (requests (snd (checkLimit t k s))) k"
proof -
  have same: "DAList.lookup (requests (snd (checkLimit now c s))) k = DAList.lookup (requests s) k"
    using assms by (rule lookup_checkLimit_other)
  have cfg: "maxRequests (snd (checkLimit now c s)) = maxRequests s"
    "windowMs (snd (checkLimit now c s)) = windowMs s"
    by simp_all
  show ?thesis
    using same checkLimit_local [OF same cfg] by simp
qed

text \<open>Client B has used its quota of one; a call of client A in between changes nothing
  for B.\<close>

theorem C5_other_clients_untouched_witness:
  "''B'' \<noteq> ''A''
   \<and> DAList.lookup (requests (snd (checkLimit 5 ''A'' (snd (checkLimit 0 ''B'' (RateLimiter_new 1 1)))))) ''B''
       = Some \<lparr>count = 1, resetTime = 60000\<rparr>
   \<and> fst (checkLimit 7 ''B'' (snd (checkLimit 5 ''A'' (snd (checkLimit 0 ''B'' (RateLimiter_new 1 1))))))
       = Denied 60000
   \<and> DAList.lookup (requests (snd (checkLimit 7 ''B''
         (snd (checkLimit 5 ''A'' (snd (checkLimit 0 ''B'' (RateLimiter_new 1 1)))))))) ''B''
       = Some \<lparr>count = 1, resetTime = 60000\<rparr>"
  using C5_other_clients_untouched [of "''B''" "''A''" 5 "snd (checkLimit 0 ''B'' (RateLimiter_new 1 1))" 7]
  by (simp add: checkLimit_def RateLimiter_new_def Let_def)

text \<open>
  Claim C6, as amended. For every state and every scan time \<open>now\<close>, \<open>cleanup\<close> deletes
  exactly the entries whose \<open>resetTime\<close> is strictly before \<open>now\<close>: each of them is
  removed, and every entry whose \<open>resetTime\<close> is at or after \<open>now\<close> stays, unmodified and
  in its place. The configuration is not touched.
\<close>

theorem C6_cleanup_strictly_expired:
  "DAList.lookup (requests (cleanup now s)) k =
     (case DAList.lookup (requests s) k of
        None \<Rightarrow> None
      | Some e \<Rightarrow> if resetTime e < now then None else Some e)
   \<and> DAList.impl_of (requests (cleanup now s)) =
       filter (\<lambda>p. \<not> resetTime (snd p) < now) (DAList.impl_of (requests s))
   \<and> maxRequests (cleanup now s) = maxRequests s
   \<and> windowMs (cleanup now s) = windowMs s"
  by (simp add: lookup_cleanup impl_of_cleanup)

text \<open>Client A's window ended at 60 s, client B's ends at 90 s; a scan at 60.001 s drops
  A and keeps B.\<close>

theorem C6_cleanup_strictly_expired_witness:
  "DAList.lookup (requests (cleanup 60001
      (snd (checkLimit 30000 ''B'' (snd (checkLimit 0 ''A'' (RateLimiter_new 20 1))))))) ''A'' = None
   \<and> DAList.lookup (requests (cleanup 60001
      (snd (checkLimit 30000 ''B'' (snd (checkLimit 0 ''A'' (RateLimiter_new 20 1))))))) ''B''
       = Some \<lparr>count = 1, resetTime = 90000\<rparr>
   \<and> DAList.impl_of (requests (cleanup 60001
      (snd (checkLimit 30000 ''B'' (snd (checkLimit 0 ''A'' (RateLimiter_new 20 1)))))))
       = [(''B'', \<lparr>count = 1, resetTime = 90000\<rparr>)]"
  using
    C6_cleanup_strictly_expired [of 60001
      "snd (checkLimit 30000 ''B'' (snd (checkLimit 0 ''A'' (RateLimiter_new 20 1))))" "''A''"]
    C6_cleanup_strictly_expired [of 60001
      "snd (checkLimit 30000 ''B'' (snd (checkLimit 0 ''A'' (RateLimiter_new 20 1))))" "''B''"]
  by (simp add: checkLimit_def RateLimiter_new_def Let_def
      DAList.update.rep_eq DAList.empty.rep_eq)

text \<open>
  Claim C6 as written ("at or before now") fails at the boundary: an entry whose
  \<open>resetTime\<close> is 60000 survives the scan made at exactly 60000.
\<close>

theorem C6_counterexample:
  "DAList.lookup (requests (snd (checkLimit 0 ''A'' (RateLimiter_new 20 1)))) ''A''
       = Some \<lparr>count = 1, resetTime = 60000\<rparr>
   \<and> resetTime \<lparr>count = 1, resetTime = 60000\<rparr> \<le> 60000
   \<and> DAList.lookup (requests (cleanup 60000 (snd (checkLimit 0 ''A'' (RateLimiter_new 20 1))))) ''A''
       = Some \<lparr>count = 1, resetTime = 60000\<rparr>"
  by (simp add: checkLimit_def RateLimiter_new_def Let_def cleanup_def cleanup_step_def
      DAList.update.rep_eq DAList.empty.rep_eq)

text \<open>
  Claim C7. For every state \<open>s\<close>, every scan time \<open>t\<close>, every client and every call time
  \<open>t' \<ge> t\<close>, the decision of \<open>checkLimit\<close> at \<open>t'\<close> and the entry it leaves for the client
  are the same whether or not \<open>cleanup\<close> ran at \<open>t\<close> first.
\<close>

theorem C7_cleanup_unobservable:
  assumes "t \<le> t'"
  shows "fst (checkLimit t' c (cleanup t s)) = fst (checkLimit t' c s)
       \<and> DAList.lookup (requests (snd (checkLimit t' c (cleanup t s)))) c
           = DAList.lookup (requests (snd (checkLimit t' c s))) c"
proof (cases "DAList.lookup (requests (cleanup t s)) c = DAList.lookup (requests s) c")
  case True
  then show ?thesis
    using checkLimit_local [of "cleanup t s" c s t'] by simp
next
  case False
  then obtain e where e: "DAList.lookup (requests s) c = Some e" "resetTime e < t"
    and gone: "DAList.lookup (requests (cleanup t s)) c = None"
    by (auto simp add: lookup_cleanup split: option.splits if_splits)
  from e(2) assms have "resetTime e < t'" by simp
  with e(1) have "checkLimit t' c s =
    (Allowed, s\<lparr>requests := DAList.update c \<lparr>count = 1, resetTime = t' + windowMs s\<rparr> (requests s)\<rparr>)"
    by (simp add: checkLimit_fresh)
  moreover from gone have "checkLimit t' c (cleanup t s) =
    (Allowed, (cleanup t s)\<lparr>requests := DAList.update c
        \<lparr>count = 1, resetTime = t' + windowMs (cleanup t s)\<rparr> (requests (cleanup t s))\<rparr>)"
    by (simp add: checkLimit_fresh)
  ultimately show ?thesis by simp
qed

text \<open>An expired entry is replaced by the same fresh window with and without the scan.\<close>

theorem C7_cleanup_unobservable_witness:
  "(60001::int) \<le> 61000
   \<and> fst (checkLimit 61000 ''A'' (cleanup 60001 (snd (checkLimit 0 ''A'' (RateLimiter_new 1 1)))))
      = Allowed
   \<and> fst (checkLimit 61000 ''A'' (snd (checkLimit 0 ''A'' (RateLimiter_new 1 1)))) = Allowed
   \<and> DAList.lookup (requests (snd (checkLimit 61000 ''A''
        (cleanup 60001 (snd (checkLimit 0 ''A'' (RateLimiter_new 1 1))))))) ''A''
      = Some \<lparr>count = 1, resetTime = 121000\<rparr>"
  using C7_cleanup_unobservable [of 60001 61000 "''A''" "snd (checkLimit 0 ''A'' (RateLimiter_new 1 1))"]
  by (simp add: checkLimit_def RateLimiter_new_def Let_def)

text \<open>
  Claim C10. On the branch that admits by incrementing (entry present, not expired,
  \<open>count < maxRequests\<close>) \<open>checkLimit\<close> answers Allowed, adds one to \<open>count\<close> and leaves
  \<open>resetTime\<close> as it is. Hence the end of a window is fixed by its first admission: after
  a call at \<open>t1\<close> that opens a window and any further calls made up to \<open>t1 + windowMs\<close>,
  the entry's \<open>resetTime\<close> is still \<open>t1 + windowMs\<close>.
\<close>

theorem C10_increment_keeps_resetTime:
  "(DAList.lookup (requests s) c = Some e \<and> \<not> resetTime e < now \<and> count e < maxRequests s
      \<longrightarrow> fst (checkLimit now c s) = Allowed
        \<and> DAList.lookup (requests (snd (checkLimit now c s))) c
            = Some \<lparr>count = count e + 1, resetTime = resetTime e\<rparr>)
   \<and> ((DAList.lookup (requests s) c = None
          \<or> (\<exists>e. DAList.lookup (requests s) c = Some e \<and> resetTime e < t1))
        \<and> (\<forall>t\<in>set ts. t \<le> t1 + windowMs s)
      \<longrightarrow> map_option resetTime (DAList.lookup (requests (snd (checkLimit_seq c (t1 # ts) s))) c)
            = Some (t1 + windowMs s))"
proof (intro conjI impI)
  assume a: "DAList.lookup (requests s) c = Some e \<and> \<not> resetTime e < now \<and> count e < maxRequests s"
  then have step: "checkLimit now c s =
      (Allowed, s\<lparr>requests := DAList.update c (e\<lparr>count := count e + 1\<rparr>) (requests s)\<rparr>)"
    by (simp add: checkLimit_increment)
  show "fst (checkLimit now c s) = Allowed"
    by (simp add: step)
  show "DAList.lookup (requests (snd (checkLimit now c s))) c
            = Some \<lparr>count = count e + 1, resetTime = resetTime e\<rparr>"
    by (simp add: step)
next
  assume b: "(DAList.lookup (requests s) c = None
          \<or> (\<exists>e. DAList.lookup (requests s) c = Some e \<and> resetTime e < t1))
        \<and> (\<forall>t\<in>set ts. t \<le> t1 + windowMs s)"
  let ?e = "\<lparr>count = 1, resetTime = t1 + windowMs s\<rparr>"
  let ?s = "s\<lparr>requests := DAList.update c ?e (requests s)\<rparr>"
  from b have "case DAList.lookup (requests s) c of None \<Rightarrow> True | Some e \<Rightarrow> resetTime e < t1"
    by auto
  then have step: "checkLimit t1 c s = (Allowed, ?s)"
    by (rule checkLimit_fresh)
  have "DAList.lookup (requests ?s) c = Some ?e" by simp
  moreover from b have "\<forall>t\<in>set ts. t \<le> resetTime ?e" by simp
  ultimately have "map_option resetTime (DAList.lookup (requests (snd (checkLimit_seq c ts ?s))) c)
      = Some (resetTime ?e)"
    by (rule checkLimit_seq_resetTime)
  then show "map_option resetTime (DAList.lookup (requests (snd (checkLimit_seq c (t1 # ts) s))) c)
            = Some (t1 + windowMs s)"
    by (simp only: checkLimit_seq_Cons step snd_conv) simp
qed

text \<open>A second call at 45 s keeps the window's end at 60 s; so do calls at 59 s and at
  60 s.\<close>

theorem C10_increment_keeps_resetTime_witness:
  "DAList.lookup (requests (snd (checkLimit 0 ''A'' (RateLimiter_new 20 1)))) ''A''
      = Some \<lparr>count = 1, resetTime = 60000\<rparr>
   \<and> \<not> resetTime \<lparr>count = 1, resetTime = 60000\<rparr> < 45000
   \<and> count \<lparr>count = 1, resetTime = 60000\<rparr> < maxRequests (snd (checkLimit 0 ''A'' (RateLimiter_new 20 1)))
   \<and> fst (checkLimit 45000 ''A'' (snd (checkLimit 0 ''A'' (RateLimiter_new 20 1)))) = Allowed
   \<and> DAList.lookup (requests (snd (checkLimit 45000 ''A'' (snd (checkLimit 0 ''A'' (RateLimiter_new 20 1)))))) ''A''
      = Some \<lparr>count = 2, resetTime = 60000\<rparr>
   \<and> DAList.lookup (requests (RateLimiter_new 20 1)) ''A'' = None
   \<and> list_all (\<lambda>t. t \<le> 0 + windowMs (RateLimiter_new 20 1)) [45000, 59000, 60000]
   \<and> map_option resetTime (DAList.lookup (requests
        (snd (checkLimit_seq ''A'' [0, 45000, 59000, 60000] (RateLimiter_new 20 1)))) ''A'')
      = Some 60000"
  using
    C10_increment_keeps_resetTime [of "snd (checkLimit 0 ''A'' (RateLimiter_new 20 1))" "''A''"
      "\<lparr>count = 1, resetTime = 60000\<rparr>" 45000 0 "[]"]
    C10_increment_keeps_resetTime [of "RateLimiter_new 20 1" "''A''"
      "\<lparr>count = 1, resetTime = 60000\<rparr>" 0 0 "[45000, 59000, 60000]"]
  by (simp add: checkLimit_def RateLimiter_new_def Let_def)

end
